theory Spec2Isabelle
  imports Main
begin

section \<open>Text, characters and the string operations of the log parser\<close>

text \<open>
  The program is \<^verbatim>\<open>src/script/main.py\<close>. A Python \<^verbatim>\<open>str\<close> is modelled as a
  \<^typ>\<open>string\<close>, one \<^typ>\<open>char\<close> per code point; the model covers the texts whose code
  points are below 256. The three character classes are the ones Python uses on that
  range: \<^verbatim>\<open>str.isspace\<close> (also the class \<^verbatim>\<open>\s\<close> of \<^verbatim>\<open>re\<close> and what
  \<^verbatim>\<open>str.strip\<close> removes), the class \<^verbatim>\<open>\w\<close>, and the line boundaries of
  \<^verbatim>\<open>str.splitlines\<close>.
\<close>

definition is_space :: "char \<Rightarrow> bool" where
  "is_space c =
     (let n = (of_char c :: nat)
      in (9 \<le> n \<and> n \<le> 13) \<or> (28 \<le> n \<and> n \<le> 32) \<or> n = 133 \<or> n = 160)"

definition is_word :: "char \<Rightarrow> bool" where
  "is_word c =
     (let n = (of_char c :: nat)
      in (48 \<le> n \<and> n \<le> 57) \<or> (65 \<le> n \<and> n \<le> 90) \<or> n = 95 \<or> (97 \<le> n \<and> n \<le> 122)
         \<or> n = 170 \<or> n = 178 \<or> n = 179 \<or> n = 181 \<or> n = 185 \<or> n = 186
         \<or> (188 \<le> n \<and> n \<le> 190) \<or> (192 \<le> n \<and> n \<le> 214)
         \<or> (216 \<le> n \<and> n \<le> 246) \<or> (248 \<le> n \<and> n \<le> 255))"

definition is_linebreak :: "char \<Rightarrow> bool" where
  "is_linebreak c =
     (let n = (of_char c :: nat)
      in (10 \<le> n \<and> n \<le> 13) \<or> (28 \<le> n \<and> n \<le> 30) \<or> n = 133)"

text \<open>The regular expression \<^verbatim>\<open>.\<close> (no DOTALL flag): any character but the newline.\<close>

definition dot :: "char \<Rightarrow> bool" where
  "dot c = (c \<noteq> CHR 0x0A)"

text \<open>
  \<^verbatim>\<open>str.splitlines()\<close>: the text is cut at every line boundary, a carriage return
  followed by a line feed is one boundary, the boundaries are dropped, and a text that
  ends with a boundary has no empty last line.
\<close>

fun splitlines :: "string \<Rightarrow> string list" where
  "splitlines [] = []"
| "splitlines (c # cs) =
     (if is_linebreak c then
        (case cs of
           [] \<Rightarrow> [[]]
         | d # ds \<Rightarrow>
             if c = CHR 0x0D \<and> d = CHR 0x0A then [] # splitlines ds
             else [] # splitlines (d # ds))
      else
        (case splitlines cs of
           [] \<Rightarrow> [[c]]
         | l # ls \<Rightarrow> (c # l) # ls))"

text \<open>\<^verbatim>\<open>str.strip()\<close>: leading and trailing whitespace removed.\<close>

definition strip :: "string \<Rightarrow> string" where
  "strip s = rev (dropWhile is_space (rev (dropWhile is_space s)))"

text \<open>\<^verbatim>\<open>sub in s\<close> for strings: \<open>sub\<close> occurs in \<open>s\<close> as a contiguous substring.\<close>

definition startswith :: "string \<Rightarrow> string \<Rightarrow> bool" where
  "startswith s sub = (take (length sub) s = sub)"

fun contains :: "string \<Rightarrow> string \<Rightarrow> bool" where
  "contains [] sub = (sub = [])"
| "contains (c # cs) sub = (startswith (c # cs) sub \<or> contains cs sub)"

text \<open>\<^verbatim>\<open>str(n)\<close> for a non-negative integer, as the f-strings print the counts and ranks.\<close>

definition digit_char :: "nat \<Rightarrow> char" where
  "digit_char d = ''0123456789'' ! d"

fun show_nat :: "nat \<Rightarrow> string" where
  "show_nat n = (if n < 10 then [digit_char n] else show_nat (n div 10) @ [digit_char (n mod 10)])"

text \<open>\<^verbatim>\<open>sep.join(lines)\<close>.\<close>

fun join :: "string \<Rightarrow> string list \<Rightarrow> string" where
  "join sep [] = []"
| "join sep [l] = l"
| "join sep (l # m # ls) = l @ sep @ join sep (m # ls)"

section \<open>Regular expressions as lists of successes\<close>

text \<open>
  Python's \<^verbatim>\<open>re\<close> is a backtracking matcher. Each piece of a pattern is modelled as a
  function from the remaining input to the list of the ways it can match there, in the
  order in which the matcher tries them; a sequence of pieces is the list comprehension
  over them, and the match that \<^verbatim>\<open>re\<close> reports is the first element of that list.
  A greedy quantifier lists the longest repetition first, a lazy one the shortest.
\<close>

fun lit :: "char \<Rightarrow> string \<Rightarrow> string list" where
  "lit c [] = []"
| "lit c (x # xs) = (if x = c then [xs] else [])"

fun lit_str :: "string \<Rightarrow> string \<Rightarrow> string list" where
  "lit_str [] s = [s]"
| "lit_str (c # cs) s = concat (map (lit_str cs) (lit c s))"

fun star_greedy :: "(char \<Rightarrow> bool) \<Rightarrow> string \<Rightarrow> (string \<times> string) list" where
  "star_greedy p [] = [([], [])]"
| "star_greedy p (c # cs) =
     (if p c then map (\<lambda>(a, r). (c # a, r)) (star_greedy p cs) else []) @ [([], c # cs)]"

fun star_lazy :: "(char \<Rightarrow> bool) \<Rightarrow> string \<Rightarrow> (string \<times> string) list" where
  "star_lazy p [] = [([], [])]"
| "star_lazy p (c # cs) =
     ([], c # cs) # (if p c then map (\<lambda>(a, r). (c # a, r)) (star_lazy p cs) else [])"

fun plus_greedy :: "(char \<Rightarrow> bool) \<Rightarrow> string \<Rightarrow> (string \<times> string) list" where
  "plus_greedy p [] = []"
| "plus_greedy p (c # cs) =
     (if p c then map (\<lambda>(a, r). (c # a, r)) (star_greedy p cs) else [])"

fun plus_lazy :: "(char \<Rightarrow> bool) \<Rightarrow> string \<Rightarrow> (string \<times> string) list" where
  "plus_lazy p [] = []"
| "plus_lazy p (c # cs) =
     (if p c then map (\<lambda>(a, r). (c # a, r)) (star_lazy p cs) else [])"

definition first_match :: "'a list \<Rightarrow> 'a option" where
  "first_match ms = (case ms of [] \<Rightarrow> None | m # _ \<Rightarrow> Some m)"

text \<open>
  Line 28 and line 40: \<^verbatim>\<open>re.compile(r'\[(.*?)\]\s+(\w+)\s+-\s+(.*)').match(line)\<close>,
  anchored at the start of the line; the result is \<^verbatim>\<open>match.groups()\<close>.
\<close>

definition pattern_matches :: "string \<Rightarrow> (string \<times> string \<times> string) list" where
  "pattern_matches line =
     [(timestamp, level, message).
        s1 \<leftarrow> lit CHR ''['' line,
        (timestamp, s2) \<leftarrow> star_lazy dot s1,
        s3 \<leftarrow> lit CHR '']'' s2,
        (w1, s4) \<leftarrow> plus_greedy is_space s3,
        (level, s5) \<leftarrow> plus_greedy is_word s4,
        (w2, s6) \<leftarrow> plus_greedy is_space s5,
        s7 \<leftarrow> lit CHR ''-'' s6,
        (w3, s8) \<leftarrow> plus_greedy is_space s7,
        (message, s9) \<leftarrow> star_greedy dot s8]"

definition pattern_match :: "string \<Rightarrow> (string \<times> string \<times> string) option" where
  "pattern_match line = first_match (pattern_matches line)"

text \<open>
  Line 46: \<^verbatim>\<open>re.search(r'Agent Response:\s*"(.+?)"', message)\<close>. The pattern is tried
  at every position of the message from left to right, and the first position where it
  matches decides; the result is \<^verbatim>\<open>group(1)\<close>.
\<close>

definition response_matches :: "string \<Rightarrow> string list" where
  "response_matches s =
     [response_text.
        s1 \<leftarrow> lit_str ''Agent Response:'' s,
        (w, s2) \<leftarrow> star_greedy is_space s1,
        s3 \<leftarrow> lit CHR 0x22 s2,
        (response_text, s4) \<leftarrow> plus_lazy dot s3,
        s5 \<leftarrow> lit CHR 0x22 s4]"

fun response_search :: "string \<Rightarrow> string option" where
  "response_search [] = first_match (response_matches [])"
| "response_search (c # cs) =
     (case first_match (response_matches (c # cs)) of
        Some response_text \<Rightarrow> Some response_text
      | None \<Rightarrow> response_search cs)"

section \<open>Counters\<close>

text \<open>
  A \<^verbatim>\<open>collections.Counter\<close> is a dictionary, which keeps its keys in the order of
  their first insertion: an association list in that order. \<^verbatim>\<open>c[k] += 1\<close> reads 0
  for a missing key and appends it; \<^verbatim>\<open>most_common\<close> sorts the items by count,
  largest first, and the sort is stable, so equal counts stay in insertion order.
\<close>

type_synonym counter = "(string \<times> nat) list"

fun counter_incr :: "counter \<Rightarrow> string \<Rightarrow> counter" where
  "counter_incr [] k = [(k, 1)]"
| "counter_incr ((k', n) # c) k =
     (if k' = k then (k', n + 1) # c else (k', n) # counter_incr c k)"

definition counter_get :: "counter \<Rightarrow> string \<Rightarrow> nat \<Rightarrow> nat" where
  "counter_get c k d = (case map_of c k of None \<Rightarrow> d | Some n \<Rightarrow> n)"

definition most_common :: "counter \<Rightarrow> (string \<times> nat) list" where
  "most_common c = sort_key (\<lambda>item. - int (snd item)) c"

definition most_common_n :: "nat \<Rightarrow> counter \<Rightarrow> (string \<times> nat) list" where
  "most_common_n n c = take n (most_common c)"

section \<open>The pass over the lines\<close>

record counters =
  level_counter :: counter
  ai_response_counter :: counter
  error_counter :: counter

definition empty_counters :: counters where
  "empty_counters = \<lparr>level_counter = [], ai_response_counter = [], error_counter = []\<rparr>"

text \<open>The body of the loop of lines 34 to 52, on one element of \<^verbatim>\<open>log_lines\<close>.\<close>

definition process_line :: "counters \<Rightarrow> string \<Rightarrow> counters" where
  "process_line st raw =
     (let line = strip raw in
      if line = [] then st
      else
        (case pattern_match line of
           None \<Rightarrow> st
         | Some (timestamp, level, message) \<Rightarrow>
             let st1 = st\<lparr>level_counter := counter_incr (level_counter st) level\<rparr>;
                 st2 =
                   (if level = ''INFO'' \<and> contains message ''Agent Response:'' then
                      (case response_search message of
                         None \<Rightarrow> st1
                       | Some response_text \<Rightarrow>
                           st1\<lparr>ai_response_counter :=
                                 counter_incr (ai_response_counter st1) response_text\<rparr>)
                    else st1)
             in if level = ''ERROR''
                then st2\<lparr>error_counter := counter_incr (error_counter st2) message\<rparr>
                else st2))"

definition process_lines :: "string list \<Rightarrow> counters" where
  "process_lines log_lines = foldl process_line empty_counters log_lines"

section \<open>The report\<close>

definition summary_lines :: "counters \<Rightarrow> string list" where
  "summary_lines st =
     [''Log Summary:'',
      ''- INFO messages: '' @ show_nat (counter_get (level_counter st) ''INFO'' 0),
      ''- ERROR messages: '' @ show_nat (counter_get (level_counter st) ''ERROR'' 0),
      ''- WARNING messages: '' @ show_nat (counter_get (level_counter st) ''WARNING'' 0)]"

definition response_entries :: "counters \<Rightarrow> (nat \<times> string \<times> nat) list" where
  "response_entries st = List.enumerate 1 (most_common_n 3 (ai_response_counter st))"

definition format_response :: "nat \<times> string \<times> nat \<Rightarrow> string" where
  "format_response e =
     (case e of (i, response, count) \<Rightarrow>
        show_nat i @ ''. '' @ [CHR 0x22] @ response @ [CHR 0x22] @ '' ('' @ show_nat count
          @ '' times)'')"

definition response_lines :: "counters \<Rightarrow> string list" where
  "response_lines st = ''Top 3 AI Responses:'' # map format_response (response_entries st)"

definition error_entries :: "counters \<Rightarrow> (nat \<times> string \<times> nat) list" where
  "error_entries st = List.enumerate 1 (most_common (error_counter st))"

definition format_error :: "nat \<times> string \<times> nat \<Rightarrow> string" where
  "format_error e =
     (case e of (i, error, count) \<Rightarrow>
        show_nat i @ ''. '' @ error @ '' ('' @ show_nat count @ '' times)'')"

definition error_lines :: "counters \<Rightarrow> string list" where
  "error_lines st = ''Most Common Errors:'' # map format_error (error_entries st)"

definition output_lines :: "counters \<Rightarrow> string list" where
  "output_lines st = summary_lines st @ [''''] @ response_lines st @ [''''] @ error_lines st"

definition parse_agent_logs :: "string \<Rightarrow> string" where
  "parse_agent_logs report_str =
     join [CHR 0x0A] (output_lines (process_lines (splitlines report_str)))"

section \<open>The file reader and the entry point with the options\<close>

text \<open>
  Lines 4 to 22. \<^verbatim>\<open>read_file\<close> returns the text of the file, or raises when the
  file cannot be opened; the files are a map from paths to texts. \<^verbatim>\<open>analyze_logs\<close>
  accepts \<^verbatim>\<open>top_responses\<close> and \<^verbatim>\<open>top_errors\<close> and returns what
  \<^verbatim>\<open>read_file\<close> returns. The main block (lines 76 and 77) calls it with the default
  options and hands the result to \<^verbatim>\<open>parse_agent_logs\<close>.
\<close>

datatype error = OSError

definition read_file :: "(string \<rightharpoonup> string) \<Rightarrow> string \<Rightarrow> error + string" where
  "read_file files file_path =
     (case files file_path of None \<Rightarrow> Inl OSError | Some text \<Rightarrow> Inr text)"

definition analyze_logs ::
  "(string \<rightharpoonup> string) \<Rightarrow> string \<Rightarrow> int \<Rightarrow> int \<Rightarrow> error + string" where
  "analyze_logs files log_file_path top_responses top_errors = read_file files log_file_path"

definition main :: "(string \<rightharpoonup> string) \<Rightarrow> error + string" where
  "main files =
     (case analyze_logs files ''sample.log'' 3 2 of
        Inl e \<Rightarrow> Inl e
      | Inr report \<Rightarrow> Inr (parse_agent_logs report))"

section \<open>The notions the properties are stated with\<close>

text \<open>
  The entry of a raw line is what lines 35 to 42 obtain from it: the three groups of the
  match on the stripped line, or nothing when the stripped line is empty or does not
  match. The entries of a list of lines are taken in the order of the lines.
\<close>

definition classify :: "string \<Rightarrow> (string \<times> string \<times> string) option" where
  "classify raw = (let line = strip raw in if line = [] then None else pattern_match line)"

definition entries :: "string list \<Rightarrow> (string \<times> string \<times> string) list" where
  "entries log_lines = List.map_filter classify log_lines"

text \<open>The response that lines 45 to 48 extract from an entry, if any.\<close>

definition entry_response :: "string \<times> string \<times> string \<Rightarrow> string option" where
  "entry_response e =
     (case e of (timestamp, level, message) \<Rightarrow>
        if level = ''INFO'' \<and> contains message ''Agent Response:''
        then response_search message else None)"

text \<open>
  The three sequences that are counted, in input order: the severity of every entry, the
  extracted responses, and the messages of the entries whose severity is \<^verbatim>\<open>ERROR\<close>.
\<close>

definition severities :: "string list \<Rightarrow> string list" where
  "severities log_lines = map (\<lambda>e. fst (snd e)) (entries log_lines)"

definition responses :: "string list \<Rightarrow> string list" where
  "responses log_lines = List.map_filter entry_response (entries log_lines)"

definition error_messages :: "string list \<Rightarrow> string list" where
  "error_messages log_lines =
     map (\<lambda>e. snd (snd e)) (filter (\<lambda>e. fst (snd e) = ''ERROR'') (entries log_lines))"

text \<open>Counting a sequence of keys from the empty counter, and the keys by first occurrence.\<close>

definition tally :: "string list \<Rightarrow> counter" where
  "tally ks = foldl counter_incr [] ks"

fun first_seen :: "string list \<Rightarrow> string list" where
  "first_seen [] = []"
| "first_seen (k # ks) = k # removeAll k (first_seen ks)"


text \<open>
  A quoted span of a message, stated without the matcher: after the prefix \<open>pre\<close> the
  message goes on with the marker, optional whitespace, a double quote, the non-empty text
  \<open>body\<close> and a double quote.
\<close>

definition response_span :: "string \<Rightarrow> string \<Rightarrow> string \<Rightarrow> bool" where
  "response_span message pre body =
     (\<exists>ws rest.
        message = pre @ ''Agent Response:'' @ ws @ [CHR 0x22] @ body @ [CHR 0x22] @ rest
        \<and> (\<forall>c\<in>set ws. is_space c) \<and> body \<noteq> [])"

section \<open>The pass as three counts\<close>

lemma entries_Nil: "entries [] = []"
  by (simp add: entries_def map_filter_simps)

lemma entries_Cons:
  "entries (raw # ls) = (case classify raw of None \<Rightarrow> entries ls | Some e \<Rightarrow> e # entries ls)"
  by (simp add: entries_def map_filter_simps split: option.splits)

lemma process_line_classify:
  "process_line st raw =
     (case classify raw of
        None \<Rightarrow> st
      | Some e \<Rightarrow>
          \<lparr>level_counter = counter_incr (level_counter st) (fst (snd e)),
           ai_response_counter =
             (case entry_response e of
                None \<Rightarrow> ai_response_counter st
              | Some r \<Rightarrow> counter_incr (ai_response_counter st) r),
           error_counter =
             (if fst (snd e) = ''ERROR'' then counter_incr (error_counter st) (snd (snd e))
              else error_counter st)\<rparr>)"
  by (cases st) (simp add: process_line_def classify_def entry_response_def Let_def
      split: option.splits prod.splits)

lemma foldl_process_line:
  "foldl process_line st ls =
     \<lparr>level_counter = foldl counter_incr (level_counter st) (severities ls),
      ai_response_counter = foldl counter_incr (ai_response_counter st) (responses ls),
      error_counter = foldl counter_incr (error_counter st) (error_messages ls)\<rparr>"
proof (induction ls arbitrary: st)
  case Nil
  show ?case
    by (simp add: severities_def responses_def error_messages_def entries_Nil map_filter_simps)
next
  case (Cons raw ls)
  show ?case
  proof (cases "classify raw")
    case None
    then show ?thesis
      using Cons.IH [of st]
      by (simp add: process_line_classify severities_def responses_def error_messages_def
          entries_Cons)
  next
    case (Some e)
    then show ?thesis
      using Cons.IH [of "process_line st raw"]
      by (simp add: process_line_classify severities_def responses_def error_messages_def
          entries_Cons map_filter_simps split: option.splits)
  qed
qed

lemma process_lines_tally:
  "process_lines ls =
     \<lparr>level_counter = tally (severities ls),
      ai_response_counter = tally (responses ls),
      error_counter = tally (error_messages ls)\<rparr>"
  by (simp add: process_lines_def foldl_process_line tally_def empty_counters_def)


section \<open>Counters by first occurrence\<close>

lemma tally_snoc: "tally (ks @ [k]) = counter_incr (tally ks) k"
  by (simp add: tally_def)

lemma first_seen_set: "set (first_seen ks) = set ks"
  by (induction ks) auto

lemma first_seen_distinct: "distinct (first_seen ks)"
  by (induction ks) (auto simp: first_seen_set distinct_removeAll)

lemma first_seen_snoc:
  "first_seen (ks @ [k]) = (if k \<in> set ks then first_seen ks else first_seen ks @ [k])"
proof (induction ks)
  case Nil
  show ?case by simp
next
  case (Cons a ks)
  then show ?case by (auto simp: first_seen_set)
qed

lemma counter_incr_map:
  "distinct ds \<Longrightarrow>
   counter_incr (map (\<lambda>x. (x, f x)) ds) k =
     (if k \<in> set ds then map (\<lambda>x. (x, if x = k then f x + 1 else f x)) ds
      else map (\<lambda>x. (x, f x)) ds @ [(k, 1)])"
  by (induction ds) auto

lemma tally_eq: "tally ks = map (\<lambda>k. (k, count_list ks k)) (first_seen ks)"
proof (induction ks rule: rev_induct)
  case Nil
  show ?case by (simp add: tally_def)
next
  case (snoc k ks)
  show ?case
  proof (cases "k \<in> set ks")
    case True
    then show ?thesis
      by (simp add: tally_snoc snoc.IH counter_incr_map first_seen_distinct first_seen_set
          first_seen_snoc)
  next
    case False
    then show ?thesis
      by (auto simp: tally_snoc snoc.IH counter_incr_map first_seen_distinct first_seen_set
          first_seen_snoc)
  qed
qed

lemma tally_keys: "map fst (tally ks) = first_seen ks"
  by (simp add: tally_eq comp_def)


lemma tally_get: "counter_get (tally ks) k 0 = count_list ks k"
proof -
  have "map_of (map (\<lambda>k. (k, count_list ks k)) ds) k = (if k \<in> set ds then Some (count_list ks k) else None)" for ds
    by (induction ds) auto
  then show ?thesis
    by (simp add: counter_get_def tally_eq first_seen_set count_list_0_iff)
qed


section \<open>The stable ranking\<close>

lemma most_common_set: "set (most_common c) = set c"
  by (simp add: most_common_def)


lemma most_common_distinct: "distinct (most_common c) = distinct c"
  by (simp add: most_common_def)

lemma most_common_sorted: "sorted_wrt (\<lambda>x y. snd y \<le> snd x) (most_common c)"
proof -
  have "sorted (map (\<lambda>item. - int (snd item)) (most_common c))"
    unfolding most_common_def by (rule sorted_sort_key)
  then show ?thesis
    by (simp add: sorted_map sorted_wrt_iff_nth_less)
qed

lemma filter_eq_appendD:
  "filter P xs = u @ v \<Longrightarrow> \<exists>X R. xs = X @ R \<and> filter P R = v"
proof (induction u arbitrary: xs)
  case Nil
  then have "xs = [] @ xs \<and> filter P xs = v" by simp
  then show ?case by blast
next
  case (Cons a u)
  then have "filter P xs = a # (u @ v)" by simp
  then obtain us vs where xs: "xs = us @ a # vs" and "filter P vs = u @ v"
    by (auto simp: filter_eq_Cons_iff)
  from Cons.IH [OF this(2)] obtain X R where "vs = X @ R" and R: "filter P R = v" by blast
  then have "xs = (us @ a # X) @ R" by (simp add: xs)
  with R show ?case by blast
qed

lemma filter_order:
  "filter P xs = u @ x # v @ y # w \<Longrightarrow> \<exists>X Y Z. xs = X @ x # Y @ y # Z"
proof -
  assume "filter P xs = u @ x # v @ y # w"
  then obtain X R where 1: "xs = X @ R" and 2: "filter P R = x # v @ y # w"
    using filter_eq_appendD by blast
  from 2 obtain X2 R2 where 3: "R = X2 @ x # R2" and 4: "filter P R2 = v @ y # w"
    by (auto simp: filter_eq_Cons_iff)
  from 4 obtain Y R3 where 5: "R2 = Y @ R3" and 6: "filter P R3 = y # w"
    using filter_eq_appendD by blast
  from 6 obtain Y2 Z where 7: "R3 = Y2 @ y # Z"
    by (auto simp: filter_eq_Cons_iff)
  have "xs = (X @ X2) @ x # (Y @ Y2) @ y # Z"
    by (simp add: 1 3 5 7)
  then show ?thesis by blast
qed

lemma most_common_stable:
  assumes "c = xs @ (a, n) # ys @ (b, n) # zs"
  shows "\<exists>X Y Z. most_common c = X @ (a, n) # Y @ (b, n) # Z"
proof -
  let ?f = "\<lambda>item :: string \<times> nat. - int (snd item)"
  let ?P = "\<lambda>y. ?f y = - int n"
  have "filter ?P (most_common c) = filter ?P c"
    unfolding most_common_def by (rule sort_key_stable)
  also have "\<dots> = filter ?P xs @ (a, n) # filter ?P ys @ (b, n) # filter ?P zs"
    by (simp add: assms)
  finally show ?thesis by (rule filter_order)
qed

lemma first_seen_order:
  "a \<in> set (takeWhile (\<lambda>k. k \<noteq> b) ks) \<Longrightarrow> b \<in> set ks \<Longrightarrow>
   \<exists>xs ys zs. first_seen ks = xs @ a # ys @ b # zs"
proof (induction ks)
  case Nil
  then show ?case by simp
next
  case (Cons k ks)
  show ?case
  proof (cases "k = b")
    case True
    with Cons.prems show ?thesis by simp
  next
    case kb: False
    show ?thesis
    proof (cases "k = a")
      case True
      have "b \<in> set (removeAll k (first_seen ks))"
        using Cons.prems kb by (auto simp: first_seen_set)
      then obtain ys zs where "removeAll k (first_seen ks) = ys @ b # zs"
        by (auto simp: in_set_conv_decomp)
      then have "first_seen (k # ks) = [] @ a # ys @ b # zs"
        using True by simp
      then show ?thesis by blast
    next
      case False
      with Cons.prems kb have "a \<in> set (takeWhile (\<lambda>k. k \<noteq> b) ks)" "b \<in> set ks"
        by auto
      from Cons.IH [OF this] obtain xs ys zs where "first_seen ks = xs @ a # ys @ b # zs"
        by blast
      then have "first_seen (k # ks) = (k # removeAll k xs) @ a # removeAll k ys @ b # removeAll k zs"
        using False kb by simp
      then show ?thesis by blast
    qed
  qed
qed

lemma ranked_order:
  assumes "a \<in> set (takeWhile (\<lambda>k. k \<noteq> b) ks)" and "b \<in> set ks"
    and "count_list ks a = count_list ks b"
  shows "\<exists>X Y Z. most_common (tally ks) =
           X @ (a, count_list ks b) # Y @ (b, count_list ks b) # Z"
proof -
  from first_seen_order [OF assms(1,2)] obtain xs ys zs
    where "first_seen ks = xs @ a # ys @ b # zs" by blast
  then have "tally ks =
      map (\<lambda>k. (k, count_list ks k)) xs @ (a, count_list ks b) #
      map (\<lambda>k. (k, count_list ks k)) ys @ (b, count_list ks b) #
      map (\<lambda>k. (k, count_list ks k)) zs"
    by (simp add: tally_eq assms(3))
  then show ?thesis by (rule most_common_stable)
qed

lemma tally_distinct: "distinct (map fst (tally ks))"
  by (simp add: tally_keys first_seen_distinct)

lemma enumerate_take_order:
  assumes S: "S = X @ x # Y @ y # Z" and d: "distinct S"
    and j: "(j, y) \<in> set (List.enumerate 1 (take m S))"
  shows "\<exists>i<j. (i, x) \<in> set (List.enumerate 1 (take m S))"
proof -
  from j have j1: "1 \<le> j" and j2: "j - 1 < length (take m S)" and j3: "take m S ! (j - 1) = y"
    by (auto simp: in_set_enumerate_eq)
  from j2 have j4: "j - 1 < length S" and j5: "j - 1 < m" by simp_all
  from j3 j2 have "S ! (j - 1) = y" by simp
  moreover have "S ! (length X + 1 + length Y) = y"
    by (simp add: S nth_append)
  moreover have "length X + 1 + length Y < length S" by (simp add: S)
  ultimately have eq: "j - 1 = length X + 1 + length Y"
    using d j4 by (metis nth_eq_iff_index_eq)
  have "S ! length X = x" by (simp add: S)
  moreover have "length X < length (take m S)" using eq j2 by simp
  ultimately have "(length X + 1, x) \<in> set (List.enumerate 1 (take m S))"
    by (simp add: in_set_enumerate_eq)
  moreover have "length X + 1 < j" using eq j1 by simp
  ultimately show ?thesis by blast
qed


section \<open>The matcher against the shape of a line\<close>

lemma set_lit: "set (lit c s) = {r. s = c # r}"
  by (cases s) auto

lemma set_lit_str: "set (lit_str l s) = {r. s = l @ r}"
  by (induction l arbitrary: s) (auto simp: set_lit)

lemma set_star_greedy: "set (star_greedy p s) = {(a, r). s = a @ r \<and> (\<forall>c\<in>set a. p c)}"
proof (induction s)
  case Nil
  show ?case by auto
next
  case (Cons x s)
  show ?case
  proof (rule set_eqI)
    fix ar :: "string \<times> string"
    obtain a r where ar: "ar = (a, r)" by (cases ar)
    show "ar \<in> set (star_greedy p (x # s)) \<longleftrightarrow> ar \<in> {(a, r). x # s = a @ r \<and> (\<forall>c\<in>set a. p c)}"
      unfolding ar using Cons.IH by (cases a) (auto simp: image_iff)
  qed
qed

lemma set_star_lazy: "set (star_lazy p s) = set (star_greedy p s)"
  by (induction s) auto

lemma set_plus_greedy:
  "set (plus_greedy p s) = {(a, r). s = a @ r \<and> a \<noteq> [] \<and> (\<forall>c\<in>set a. p c)}"
proof (cases s)
  case Nil
  then show ?thesis by auto
next
  case (Cons x s')
  show ?thesis
  proof (rule set_eqI)
    fix ar :: "string \<times> string"
    obtain a r where ar: "ar = (a, r)" by (cases ar)
    show "ar \<in> set (plus_greedy p s) \<longleftrightarrow> ar \<in> {(a, r). s = a @ r \<and> a \<noteq> [] \<and> (\<forall>c\<in>set a. p c)}"
      unfolding ar Cons by (cases a) (auto simp: image_iff set_star_greedy)
  qed
qed

lemma set_plus_lazy: "set (plus_lazy p s) = set (plus_greedy p s)"
  by (cases s) (auto simp: set_star_lazy)


lemma pattern_matches_sound:
  assumes "(timestamp, level, message) \<in> set (pattern_matches line)"
  shows "\<exists>w1 w2 w3 rest.
          line = ''['' @ timestamp @ '']'' @ w1 @ level @ w2 @ ''-'' @ w3 @ message @ rest
          \<and> (\<forall>c\<in>set timestamp. dot c)
          \<and> w1 \<noteq> [] \<and> (\<forall>c\<in>set w1. is_space c)
          \<and> level \<noteq> [] \<and> (\<forall>c\<in>set level. is_word c)
          \<and> w2 \<noteq> [] \<and> (\<forall>c\<in>set w2. is_space c)
          \<and> w3 \<noteq> [] \<and> (\<forall>c\<in>set w3. is_space c)
          \<and> (\<forall>c\<in>set message. dot c)"
  using assms unfolding pattern_matches_def
  by (auto simp: set_lit set_star_lazy set_star_greedy set_plus_greedy)


lemma first_match_None: "first_match ms = None \<longleftrightarrow> ms = []"
  by (simp add: first_match_def split: list.splits)

lemma first_match_Some: "first_match ms = Some m \<Longrightarrow> m \<in> set ms"
  by (auto simp: first_match_def split: list.splits)



section \<open>The search for the quoted span\<close>

lemma response_matches_sound:
  assumes "body \<in> set (response_matches s)"
  shows "\<exists>ws rest.
        s = ''Agent Response:'' @ ws @ [CHR 0x22] @ body @ [CHR 0x22] @ rest
        \<and> (\<forall>c\<in>set ws. is_space c) \<and> body \<noteq> [] \<and> (\<forall>c\<in>set body. dot c)"
  using assms unfolding response_matches_def
  by (auto simp del: lit_str.simps
      simp: set_lit set_lit_str set_star_greedy set_plus_lazy set_plus_greedy)

lemma response_matches_span:
  "body \<in> set (response_matches s) \<Longrightarrow> response_span (pre @ s) pre body"
  using response_matches_sound [of body s] unfolding response_span_def by auto

lemma star_greedy_prefix:
  "\<forall>c\<in>set ws. p c \<Longrightarrow>
   \<exists>others. star_greedy p (ws @ r) = map (\<lambda>(a, r'). (ws @ a, r')) (star_greedy p r) @ others"
proof (induction ws)
  case Nil
  then show ?case by simp
next
  case (Cons x ws)
  then obtain others where
    "star_greedy p (ws @ r) = map (\<lambda>(a, r'). (ws @ a, r')) (star_greedy p r) @ others"
    by auto
  then have "star_greedy p ((x # ws) @ r) =
      map (\<lambda>(a, r'). ((x # ws) @ a, r')) (star_greedy p r) @
      (map (\<lambda>(a, r). (x # a, r)) others @ [([], x # ws @ r)])"
    using Cons.prems by (simp add: case_prod_unfold comp_def)
  then show ?case by blast
qed

lemma star_greedy_stop:
  assumes "\<forall>c\<in>set ws. p c" and "\<not> p x"
  shows "\<exists>others. star_greedy p (ws @ x # r) = (ws, x # r) # others"
proof -
  from star_greedy_prefix [OF assms(1), of "x # r"] obtain others where
    "star_greedy p (ws @ x # r) = map (\<lambda>(a, r'). (ws @ a, r')) (star_greedy p (x # r)) @ others"
    by blast
  then show ?thesis using assms(2) by simp
qed

lemma star_lazy_first_quote:
  "\<forall>c\<in>set u. p c \<and> c \<noteq> q \<Longrightarrow>
   \<exists>others.
     concat (map (\<lambda>(a, r). concat (map (\<lambda>s5. [k a]) (lit q r))) (star_lazy p (u @ q # rest)))
       = k u # others"
proof (induction u arbitrary: k)
  case Nil
  then show ?case by simp
next
  case (Cons c u)
  from Cons.prems have "\<forall>c\<in>set u. p c \<and> c \<noteq> q" by simp
  from Cons.IH [OF this, of "\<lambda>a. k (c # a)"] obtain others where
    "concat (map (\<lambda>(a, r). concat (map (\<lambda>s5. [k (c # a)]) (lit q r))) (star_lazy p (u @ q # rest)))
       = k (c # u) # others" by blast
  then show ?case
    using Cons.prems by (simp add: case_prod_unfold comp_def)
qed

lemma response_matches_head:
  assumes s: "s = ''Agent Response:'' @ ws @ [CHR 0x22] @ body @ [CHR 0x22] @ rest"
    and ws: "\<forall>c\<in>set ws. is_space c"
    and body: "body \<noteq> []" "\<forall>c\<in>set body. dot c" "CHR 0x22 \<notin> set (tl body)"
  shows "first_match (response_matches s) = Some body"
proof -
  obtain c u where cu: "body = c # u" using body(1) by (cases body) auto
  have nq: "\<not> is_space (CHR 0x22)" by (simp add: is_space_def)
  from star_greedy_stop [OF ws nq] obtain others where
    sg: "star_greedy is_space (ws @ CHR 0x22 # body @ CHR 0x22 # rest) =
          (ws, CHR 0x22 # body @ CHR 0x22 # rest) # others" by blast
  have u: "\<forall>c\<in>set u. dot c \<and> c \<noteq> CHR 0x22" using body cu by auto
  from star_lazy_first_quote [OF u, of "\<lambda>a. c # a" rest] obtain others2 where
    sl: "concat (map (\<lambda>(a, r). concat (map (\<lambda>s5. [c # a]) (lit (CHR 0x22) r)))
           (star_lazy dot (u @ CHR 0x22 # rest))) = (c # u) # others2" by blast
  have c: "dot c" using body cu by simp
  have "\<exists>others3. response_matches s = body # others3"
    unfolding response_matches_def s
    using sg sl c by (simp add: cu case_prod_unfold comp_def)
  then show ?thesis by (auto simp: first_match_def)
qed


section \<open>The leftmost match\<close>

lemma response_search_None:
  "response_search s = None \<longleftrightarrow> (\<forall>p1 p2. s = p1 @ p2 \<longrightarrow> response_matches p2 = [])"
proof (induction s)
  case Nil
  show ?case by (simp add: first_match_None)
next
  case (Cons c s)
  show ?case
  proof
    assume a: "response_search (c # s) = None"
    then have 1: "response_matches (c # s) = []" and 2: "response_search s = None"
      by (auto simp: first_match_None split: option.splits)
    show "\<forall>p1 p2. c # s = p1 @ p2 \<longrightarrow> response_matches p2 = []"
    proof (intro allI impI)
      fix p1 p2 assume e: "c # s = p1 @ p2"
      show "response_matches p2 = []"
      proof (cases p1)
        case Nil
        with e 1 show ?thesis by simp
      next
        case (Cons x p1')
        with e have "s = p1' @ p2" by simp
        with 2 Cons.IH show ?thesis by blast
      qed
    qed
  next
    assume a: "\<forall>p1 p2. c # s = p1 @ p2 \<longrightarrow> response_matches p2 = []"
    then have 1: "response_matches (c # s) = []" by (metis append_Nil)
    have "\<forall>p1 p2. s = p1 @ p2 \<longrightarrow> response_matches p2 = []"
      using a by (metis append_Cons)
    then have "response_search s = None" using Cons.IH by simp
    with 1 show "response_search (c # s) = None"
      by (simp add: first_match_def)
  qed
qed

lemma response_search_skip:
  "(\<forall>p1 p2. pre = p1 @ p2 \<and> p2 \<noteq> [] \<longrightarrow> response_matches (p2 @ s) = []) \<Longrightarrow>
   response_search (pre @ s) = response_search s"
proof (induction pre)
  case Nil
  show ?case by simp
next
  case (Cons c pre)
  have 1: "response_matches (c # pre @ s) = []"
    using Cons.prems by (metis append_Cons append_Nil list.distinct(1))
  have "\<forall>p1 p2. pre = p1 @ p2 \<and> p2 \<noteq> [] \<longrightarrow> response_matches (p2 @ s) = []"
    using Cons.prems by (metis append_Cons)
  then have "response_search (pre @ s) = response_search s" by (rule Cons.IH)
  with 1 show ?case by (simp add: first_match_def)
qed

lemma response_search_here:
  "first_match (response_matches s) = Some body \<Longrightarrow> response_search s = Some body"
  by (cases s) auto

lemma response_search_span:
  assumes span: "response_span message pre body"
    and shortest: "CHR 0x22 \<notin> set (tl body)"
    and leftmost: "\<forall>pre' body'. response_span message pre' body' \<longrightarrow> length pre \<le> length pre'"
    and nl: "\<forall>c\<in>set message. dot c"
  shows "response_search message = Some body"
proof -
  from span obtain ws rest where
    m: "message = pre @ ''Agent Response:'' @ ws @ [CHR 0x22] @ body @ [CHR 0x22] @ rest"
    and ws: "\<forall>c\<in>set ws. is_space c" and b: "body \<noteq> []"
    unfolding response_span_def by blast
  let ?s = "''Agent Response:'' @ ws @ [CHR 0x22] @ body @ [CHR 0x22] @ rest"
  have bd: "\<forall>c\<in>set body. dot c" using nl m by simp
  have here: "first_match (response_matches ?s) = Some body"
    by (rule response_matches_head [OF refl ws b bd shortest])
  have "\<forall>p1 p2. pre = p1 @ p2 \<and> p2 \<noteq> [] \<longrightarrow> response_matches (p2 @ ?s) = []"
  proof (intro allI impI)
    fix p1 p2 assume p: "pre = p1 @ p2 \<and> p2 \<noteq> []"
    show "response_matches (p2 @ ?s) = []"
    proof (rule ccontr)
      assume "response_matches (p2 @ ?s) \<noteq> []"
      then obtain b' where "b' \<in> set (response_matches (p2 @ ?s))"
        by (cases "response_matches (p2 @ ?s)") auto
      then have "response_span (p1 @ p2 @ ?s) p1 b'" by (rule response_matches_span)
      then have "response_span message p1 b'" using m p by simp
      with leftmost have "length pre \<le> length p1" by blast
      with p show False by simp
    qed
  qed
  then have "response_search (pre @ ?s) = response_search ?s" by (rule response_search_skip)
  with here m show ?thesis by (simp add: response_search_here)
qed

lemma response_search_no_span:
  assumes "\<forall>pre body. \<not> response_span message pre body"
  shows "response_search message = None"
proof -
  have "\<forall>p1 p2. message = p1 @ p2 \<longrightarrow> response_matches p2 = []"
  proof (intro allI impI)
    fix p1 p2 assume m: "message = p1 @ p2"
    show "response_matches p2 = []"
    proof (rule ccontr)
      assume "response_matches p2 \<noteq> []"
      then obtain b' where "b' \<in> set (response_matches p2)"
        by (cases "response_matches p2") auto
      then have "response_span (p1 @ p2) p1 b'" by (rule response_matches_span)
      with assms m show False by simp
    qed
  qed
  then show ?thesis by (simp add: response_search_None)
qed

lemma response_search_nonempty: "response_search s = Some body \<Longrightarrow> body \<noteq> []"
proof (induction s)
  case Nil
  then show ?case
    by (auto dest!: first_match_Some response_matches_sound)
next
  case (Cons c s)
  then show ?case
    by (auto dest!: first_match_Some response_matches_sound split: option.splits)
qed


section \<open>Stripping, substrings and entries\<close>

lemma contains_iff: "contains s sub \<longleftrightarrow> (\<exists>pre post. s = pre @ sub @ post)"
proof (induction s)
  case Nil
  show ?case by auto
next
  case (Cons c s)
  have sw: "startswith (c # s) sub \<longleftrightarrow> (\<exists>post. c # s = sub @ post)"
    unfolding startswith_def
    by (metis append_eq_conv_conj append_take_drop_id)
  show ?case
  proof
    assume "contains (c # s) sub"
    then consider "startswith (c # s) sub" | "contains s sub" by auto
    then show "\<exists>pre post. c # s = pre @ sub @ post"
    proof cases
      case 1
      then obtain post where "c # s = [] @ sub @ post" using sw by auto
      then show ?thesis by blast
    next
      case 2
      then obtain pre post where "s = pre @ sub @ post" using Cons.IH by blast
      then have "c # s = (c # pre) @ sub @ post" by simp
      then show ?thesis by blast
    qed
  next
    assume "\<exists>pre post. c # s = pre @ sub @ post"
    then obtain pre post where e: "c # s = pre @ sub @ post" by blast
    show "contains (c # s) sub"
    proof (cases pre)
      case Nil
      with e have "\<exists>post. c # s = sub @ post" by auto
      then have "startswith (c # s) sub" using sw by blast
      then show ?thesis by (simp only: contains.simps simp_thms)
    next
      case (Cons x pre')
      with e have "s = pre' @ sub @ post" by simp
      then have "contains s sub" using Cons.IH by blast
      then show ?thesis by simp
    qed
  qed
qed



lemma classify_message_dot:
  assumes "classify raw = Some (timestamp, level, message)"
  shows "\<forall>c\<in>set message. dot c"
proof -
  from assms have "pattern_match (strip raw) = Some (timestamp, level, message)"
    by (simp add: classify_def Let_def split: if_splits)
  then have "(timestamp, level, message) \<in> set (pattern_matches (strip raw))"
    by (simp add: pattern_match_def first_match_Some)
  from pattern_matches_sound [OF this] show ?thesis by blast
qed




lemma split_at_first:
  "xs @ q # ys = B @ q # zs \<Longrightarrow> q \<notin> set B \<Longrightarrow>
   (xs = B \<and> ys = zs) \<or> (\<exists>A'. xs = B @ q # A' \<and> A' @ q # ys = zs)"
proof (induction B arbitrary: xs)
  case Nil
  then show ?case by (cases xs) auto
next
  case (Cons b B)
  then show ?case by (cases xs) auto
qed

lemma no_span_adjacent_quotes:
  assumes m: "message = pre @ ''Agent Response:'' @ ws @ [CHR 0x22, CHR 0x22] @ rest"
    and ws: "\<forall>c\<in>set ws. is_space c"
    and pre: "CHR 0x22 \<notin> set pre" and rest: "CHR 0x22 \<notin> set rest"
  shows "\<not> response_span message pre' body"
proof
  assume "response_span message pre' body"
  then obtain ws' rest' where
    m': "message = pre' @ ''Agent Response:'' @ ws' @ [CHR 0x22] @ body @ [CHR 0x22] @ rest'"
    and b: "body \<noteq> []"
    unfolding response_span_def by blast
  let ?q = "CHR 0x22 :: char"
  let ?B = "pre @ ''Agent Response:'' @ ws"
  let ?A = "pre' @ ''Agent Response:'' @ ws'"
  have nq: "\<not> is_space ?q" by (simp add: is_space_def)
  have B: "?q \<notin> set ?B" using pre ws nq by auto
  have e: "?A @ ?q # (body @ ?q # rest') = ?B @ ?q # (?q # rest)"
    using m m' by simp
  obtain c u where cu: "body = c # u" using b by (cases body) auto
  from split_at_first [OF e B]
  consider (eq) "?A = ?B" "body @ ?q # rest' = ?q # rest"
    | (longer) A' where "?A = ?B @ ?q # A'" "A' @ ?q # body @ ?q # rest' = ?q # rest"
    by blast
  then show False
  proof cases
    case eq
    then have "u @ ?q # rest' = rest" by (simp add: cu)
    then have "?q \<in> set rest" by (metis in_set_conv_decomp)
    with rest show False by simp
  next
    case longer
    have "?q \<in> set rest"
    proof (cases A')
      case Nil
      with longer(2) have "body @ ?q # rest' = rest" by simp
      then show ?thesis by (metis in_set_conv_decomp)
    next
      case (Cons x A'')
      with longer(2) have "A'' @ ?q # (body @ ?q # rest') = rest" by simp
      then show ?thesis by (metis in_set_conv_decomp)
    qed
    with rest show False by simp
  qed
qed


section \<open>The empty input\<close>

text \<open>
  Claim C8. \<^verbatim>\<open>parse_agent_logs("")\<close> returns a report whose INFO, ERROR and WARNING
  counts are 0, in which the header \<^verbatim>\<open>Log Summary:\<close>, the header of the responses and
  the header \<^verbatim>\<open>Most Common Errors:\<close> are present, and in which neither ranking has an
  entry: the loops of lines 62 and 68 run over no item.
\<close>

theorem parse_agent_logs_empty:
  "parse_agent_logs [] =
     ''Log Summary:\<newline>- INFO messages: 0\<newline>- ERROR messages: 0\<newline>- WARNING messages: 0\<newline>\<newline>Top 3 AI Responses:\<newline>\<newline>Most Common Errors:''
   \<and> output_lines (process_lines (splitlines [])) =
       [''Log Summary:'', ''- INFO messages: 0'', ''- ERROR messages: 0'',
        ''- WARNING messages: 0'', [], ''Top 3 AI Responses:'', [], ''Most Common Errors:'']
   \<and> response_entries (process_lines (splitlines [])) = []
   \<and> error_entries (process_lines (splitlines [])) = []"
  by (simp add: parse_agent_logs_def output_lines_def summary_lines_def response_lines_def
      error_lines_def response_entries_def error_entries_def most_common_n_def most_common_def
      process_lines_def empty_counters_def counter_get_def digit_char_def enumerate_eq_zip)

section \<open>Lines that yield no entry\<close>






section \<open>Severities outside the three named ones\<close>

lemma counter_get_incr:
  "counter_get (counter_incr c k) k' 0 = counter_get c k' 0 + (if k' = k then 1 else 0)"
  by (induction c) (auto simp: counter_get_def)

lemma severities_filter_named:
  assumes "k \<in> N"
  shows "count_list (severities (filter (\<lambda>raw. case classify raw of None \<Rightarrow> True
            | Some (timestamp, level, message) \<Rightarrow> level \<in> N) ls)) k
         = count_list (severities ls) k"
  using assms
  by (induction ls) (auto simp: severities_def entries_Cons entries_Nil split: option.splits)

lemma summary_lines_counts:
  "summary_lines (process_lines ls) =
     [''Log Summary:'',
      ''- INFO messages: '' @ show_nat (count_list (severities ls) ''INFO''),
      ''- ERROR messages: '' @ show_nat (count_list (severities ls) ''ERROR''),
      ''- WARNING messages: '' @ show_nat (count_list (severities ls) ''WARNING'')]"
  by (simp add: summary_lines_def process_lines_tally tally_get del: show_nat.simps)

text \<open>
  Claim C5. For every classified entry the severity tally of its token is incremented by
  one, whatever the token is (also a token other than INFO, ERROR and WARNING). The
  summary consists of the header and the three lines for INFO, ERROR and WARNING only,
  each with the number of entries that carry exactly that token (case-sensitive), so no
  other token appears there; and removing the lines with other tokens from the input
  leaves the summary lines unchanged.
\<close>

theorem severity_counted_unconditionally:
  "(classify raw = Some (timestamp, level, message) \<longrightarrow>
      level_counter (process_line st raw) = counter_incr (level_counter st) level
      \<and> (\<forall>k. counter_get (level_counter (process_line st raw)) k 0 =
               counter_get (level_counter st) k 0 + (if k = level then 1 else 0)))
   \<and> summary_lines (process_lines ls) =
       [''Log Summary:'',
        ''- INFO messages: '' @ show_nat (count_list (severities ls) ''INFO''),
        ''- ERROR messages: '' @ show_nat (count_list (severities ls) ''ERROR''),
        ''- WARNING messages: '' @ show_nat (count_list (severities ls) ''WARNING'')]
   \<and> summary_lines (process_lines (filter (\<lambda>raw. case classify raw of None \<Rightarrow> True
          | Some (timestamp, level, message) \<Rightarrow> level \<in> {''INFO'', ''ERROR'', ''WARNING''}) ls))
       = summary_lines (process_lines ls)"
proof (intro conjI impI allI)
  assume c: "classify raw = Some (timestamp, level, message)"
  then show 1: "level_counter (process_line st raw) = counter_incr (level_counter st) level"
    by (simp add: process_line_classify)
  fix k
  show "counter_get (level_counter (process_line st raw)) k 0 =
          counter_get (level_counter st) k 0 + (if k = level then 1 else 0)"
    unfolding 1 by (rule counter_get_incr)
next
  show "summary_lines (process_lines ls) =
       [''Log Summary:'',
        ''- INFO messages: '' @ show_nat (count_list (severities ls) ''INFO''),
        ''- ERROR messages: '' @ show_nat (count_list (severities ls) ''ERROR''),
        ''- WARNING messages: '' @ show_nat (count_list (severities ls) ''WARNING'')]"
    by (rule summary_lines_counts)
next
  show "summary_lines (process_lines (filter (\<lambda>raw. case classify raw of None \<Rightarrow> True
          | Some (timestamp, level, message) \<Rightarrow> level \<in> {''INFO'', ''ERROR'', ''WARNING''}) ls))
       = summary_lines (process_lines ls)"
    unfolding summary_lines_counts
    by (simp add: severities_filter_named del: show_nat.simps)
qed

theorem severity_counted_unconditionally_witness:
  "classify ''[T] DEBUG - x'' = Some (''T'', ''DEBUG'', ''x'')
   \<and> level_counter (process_line empty_counters ''[T] DEBUG - x'') = [(''DEBUG'', 1)]
   \<and> counter_get (level_counter (process_line empty_counters ''[T] DEBUG - x'')) ''DEBUG'' 0 = 1
   \<and> summary_lines (process_lines [''[T] DEBUG - x'', ''[T] INFO - y'', ''[T] info - z'']) =
       [''Log Summary:'', ''- INFO messages: 1'', ''- ERROR messages: 0'',
        ''- WARNING messages: 0'']"
proof -
  have c: "classify ''[T] DEBUG - x'' = Some (''T'', ''DEBUG'', ''x'')" by code_simp
  have s: "severities [''[T] DEBUG - x'', ''[T] INFO - y'', ''[T] info - z'']
            = [''DEBUG'', ''INFO'', ''info'']" by code_simp
  note t = severity_counted_unconditionally
    [where raw = "''[T] DEBUG - x''" and timestamp = "''T''" and level = "''DEBUG''"
       and message = "''x''" and st = empty_counters
       and ls = "[''[T] DEBUG - x'', ''[T] INFO - y'', ''[T] info - z'']"]
  from t c have 1: "level_counter (process_line empty_counters ''[T] DEBUG - x'')
      = counter_incr (level_counter empty_counters) ''DEBUG''" by blast
  from t c have 2: "counter_get (level_counter (process_line empty_counters ''[T] DEBUG - x''))
      ''DEBUG'' 0 = counter_get (level_counter empty_counters) ''DEBUG'' 0
        + (if ''DEBUG'' = ''DEBUG'' then 1 else 0)" by blast
  from t have 3: "summary_lines (process_lines [''[T] DEBUG - x'', ''[T] INFO - y'', ''[T] info - z'']) =
       [''Log Summary:'',
        ''- INFO messages: '' @ show_nat (count_list (severities [''[T] DEBUG - x'', ''[T] INFO - y'', ''[T] info - z'']) ''INFO''),
        ''- ERROR messages: '' @ show_nat (count_list (severities [''[T] DEBUG - x'', ''[T] INFO - y'', ''[T] info - z'']) ''ERROR''),
        ''- WARNING messages: '' @ show_nat (count_list (severities [''[T] DEBUG - x'', ''[T] INFO - y'', ''[T] info - z'']) ''WARNING'')]"
    by blast
  show ?thesis
    using c 1 2 3 unfolding s
    by (simp add: empty_counters_def counter_get_def digit_char_def)
qed

section \<open>Responses of INFO entries\<close>

lemma response_span_contains:
  "response_span message pre body \<Longrightarrow> contains message ''Agent Response:''"
  unfolding response_span_def contains_iff by blast

lemma response_span_quote: "response_span message pre body \<Longrightarrow> CHR 0x22 \<in> set message"
  unfolding response_span_def by auto

text \<open>
  Claim C6. For every entry with severity INFO whose message contains the marker
  \<^verbatim>\<open>Agent Response:\<close>, the first quoted span that follows the marker after optional
  whitespace is recorded: of the spans of the message the leftmost one is taken, its text
  has at least one character and ends at the next double quote after that character, and
  the response counter of this text is incremented by one. If the marker is present and
  no quoted span follows it, no response is recorded. An entry with a severity other than
  INFO leaves the response counter unchanged. The model has no error value on this path,
  as the source has no \<^verbatim>\<open>raise\<close> there.
\<close>

theorem response_recorded_from_info:
  assumes "classify raw = Some (timestamp, level, message)"
  shows
    "(level = ''INFO'' \<and> response_span message pre body \<and> CHR 0x22 \<notin> set (tl body)
        \<and> (\<forall>pre' body'. response_span message pre' body' \<longrightarrow> length pre \<le> length pre')
      \<longrightarrow> ai_response_counter (process_line st raw) = counter_incr (ai_response_counter st) body
          \<and> (\<forall>k. counter_get (ai_response_counter (process_line st raw)) k 0 =
                   counter_get (ai_response_counter st) k 0 + (if k = body then 1 else 0)))
     \<and> (level = ''INFO'' \<and> contains message ''Agent Response:''
          \<and> (\<forall>pre' body'. \<not> response_span message pre' body')
      \<longrightarrow> ai_response_counter (process_line st raw) = ai_response_counter st)
     \<and> (level \<noteq> ''INFO''
      \<longrightarrow> ai_response_counter (process_line st raw) = ai_response_counter st)"
proof (intro conjI impI)
  assume h: "level = ''INFO'' \<and> response_span message pre body \<and> CHR 0x22 \<notin> set (tl body)
        \<and> (\<forall>pre' body'. response_span message pre' body' \<longrightarrow> length pre \<le> length pre')"
  have "\<forall>c\<in>set message. dot c" using assms by (rule classify_message_dot)
  with h have "response_search message = Some body"
    by (intro response_search_span) auto
  moreover have "contains message ''Agent Response:''"
    using h response_span_contains by blast
  ultimately have "entry_response (timestamp, level, message) = Some body"
    using h by (simp add: entry_response_def)
  then show 1: "ai_response_counter (process_line st raw) = counter_incr (ai_response_counter st) body"
    using assms by (simp add: process_line_classify)
  show "\<forall>k. counter_get (ai_response_counter (process_line st raw)) k 0 =
                   counter_get (ai_response_counter st) k 0 + (if k = body then 1 else 0)"
    unfolding 1 by (simp add: counter_get_incr)
next
  assume h: "level = ''INFO'' \<and> contains message ''Agent Response:''
          \<and> (\<forall>pre' body'. \<not> response_span message pre' body')"
  then have "response_search message = None"
    by (intro response_search_no_span) auto
  then have "entry_response (timestamp, level, message) = None"
    by (simp add: entry_response_def)
  then show "ai_response_counter (process_line st raw) = ai_response_counter st"
    using assms by (simp add: process_line_classify)
next
  assume "level \<noteq> ''INFO''"
  then have "entry_response (timestamp, level, message) = None"
    by (simp add: entry_response_def)
  then show "ai_response_counter (process_line st raw) = ai_response_counter st"
    using assms by (simp add: process_line_classify)
qed

theorem response_recorded_from_info_witness:
  "ai_response_counter (process_line empty_counters ''[T] INFO - Agent Response: \"Hi\" and \"x\"'')
     = [(''Hi'', 1)]
   \<and> ai_response_counter (process_line empty_counters ''[T] INFO - Agent Response: none'') = []
   \<and> ai_response_counter (process_line empty_counters ''[T] WARNING - Agent Response: \"Hi\"'')
     = []"
proof -
  let ?m = "''Agent Response: \"Hi\" and \"x\"''"
  have c0: "classify ''[T] INFO - Agent Response: \"Hi\" and \"x\"'' = Some (''T'', ''INFO'', ?m)"
    by code_simp
  have "?m = [] @ ''Agent Response:'' @ '' '' @ [CHR 0x22] @ ''Hi'' @ [CHR 0x22] @ '' and \"x\"''
      \<and> (\<forall>c\<in>set '' ''. is_space c) \<and> ''Hi'' \<noteq> []"
    by (simp add: is_space_def)
  then have s0: "response_span ?m [] ''Hi''"
    unfolding response_span_def by blast
  have q0: "CHR 0x22 \<notin> set (tl ''Hi'')" by simp
  have l0: "\<forall>pre' body'. response_span ?m pre' body' \<longrightarrow> length ([] :: string) \<le> length pre'"
    by simp
  from response_recorded_from_info [OF c0, of "[]" "''Hi''" empty_counters] s0 q0 l0
  have "ai_response_counter (process_line empty_counters
          ''[T] INFO - Agent Response: \"Hi\" and \"x\"'')
        = counter_incr (ai_response_counter empty_counters) ''Hi''"
    by blast
  then have 1: "ai_response_counter (process_line empty_counters
          ''[T] INFO - Agent Response: \"Hi\" and \"x\"'') = [(''Hi'', 1)]"
    by (simp add: empty_counters_def)
  let ?n = "''Agent Response: none''"
  have c1: "classify ''[T] INFO - Agent Response: none'' = Some (''T'', ''INFO'', ?n)"
    by code_simp
  have m1: "contains ?n ''Agent Response:''" by code_simp
  have "CHR 0x22 \<notin> set ?n" by simp
  then have n1: "\<forall>pre' body'. \<not> response_span ?n pre' body'"
    using response_span_quote by blast
  from response_recorded_from_info [OF c1, of _ _ empty_counters] m1 n1
  have "ai_response_counter (process_line empty_counters ''[T] INFO - Agent Response: none'')
        = ai_response_counter empty_counters"
    by blast
  then have 2: "ai_response_counter (process_line empty_counters
      ''[T] INFO - Agent Response: none'') = []"
    by (simp add: empty_counters_def)
  have c2: "classify ''[T] WARNING - Agent Response: \"Hi\"''
      = Some (''T'', ''WARNING'', ''Agent Response: \"Hi\"'')"
    by code_simp
  have "''WARNING'' \<noteq> ''INFO''" by simp
  with response_recorded_from_info [OF c2, of _ _ empty_counters]
  have "ai_response_counter (process_line empty_counters ''[T] WARNING - Agent Response: \"Hi\"'')
        = ai_response_counter empty_counters"
    by blast
  then have 3: "ai_response_counter (process_line empty_counters
      ''[T] WARNING - Agent Response: \"Hi\"'') = []"
    by (simp add: empty_counters_def)
  from 1 2 3 show ?thesis by blast
qed

section \<open>The empty quoted span\<close>

lemma entry_response_nonempty: "entry_response e = Some body \<Longrightarrow> body \<noteq> []"
  by (cases e) (auto simp: entry_response_def split: if_splits dest: response_search_nonempty)

lemma map_filter_elem: "y \<in> set (List.map_filter f xs) \<Longrightarrow> \<exists>x. f x = Some y"
  by (induction xs) (auto simp: map_filter_simps split: option.splits)

lemma responses_nonempty: "[] \<notin> set (responses ls)"
proof
  assume "[] \<in> set (responses ls)"
  then obtain e where "entry_response e = Some []"
    unfolding responses_def using map_filter_elem by fastforce
  then show False using entry_response_nonempty by blast
qed

text \<open>
  Claim C10 says that an INFO entry whose message has the marker followed, after optional
  whitespace, by two adjacent double quotes records no response. The entry below is one:
  its message is \<^verbatim>\<open>Agent Response: "" or "x"\<close>. The capture needs one character, takes
  the second quote of the pair as that character and runs to the next double quote, so
  the response \<^verbatim>\<open>" or \<close> is recorded.
\<close>

theorem empty_span_counterexample:
  "classify ''[T] INFO - Agent Response: \"\" or \"x\"''
     = Some (''T'', ''INFO'', ''Agent Response:'' @ '' '' @ [CHR 0x22, CHR 0x22] @ '' or \"x\"'')
   \<and> ai_response_counter (process_line empty_counters ''[T] INFO - Agent Response: \"\" or \"x\"'')
     = [(''\" or '', 1)]
   \<and> ai_response_counter (process_line empty_counters ''[T] INFO - Agent Response: \"\" or \"x\"'')
     \<noteq> ai_response_counter empty_counters"
  by code_simp

text \<open>
  Claim C10, amended. For every INFO entry whose message has the marker followed, after
  optional whitespace, by two adjacent double quotes, and has no other double quote, no
  response is recorded. The capture requires at least one character between the quotes,
  so the empty string never occurs as a key of the response counter.
\<close>

theorem empty_span_not_recorded:
  "(classify raw = Some (timestamp, ''INFO'', message)
      \<and> message = pre @ ''Agent Response:'' @ ws @ [CHR 0x22, CHR 0x22] @ rest
      \<and> (\<forall>c\<in>set ws. is_space c) \<and> CHR 0x22 \<notin> set pre \<and> CHR 0x22 \<notin> set rest
    \<longrightarrow> ai_response_counter (process_line st raw) = ai_response_counter st)
   \<and> [] \<notin> set (map fst (ai_response_counter (process_lines ls)))"
proof (intro conjI impI)
  assume h: "classify raw = Some (timestamp, ''INFO'', message)
      \<and> message = pre @ ''Agent Response:'' @ ws @ [CHR 0x22, CHR 0x22] @ rest
      \<and> (\<forall>c\<in>set ws. is_space c) \<and> CHR 0x22 \<notin> set pre \<and> CHR 0x22 \<notin> set rest"
  then have "\<not> response_span message pre' body" for pre' body
    by (intro no_span_adjacent_quotes [of message pre ws rest]) auto
  then have "\<forall>pre' body. \<not> response_span message pre' body" by blast
  then have "response_search message = None" by (rule response_search_no_span)
  then have "entry_response (timestamp, ''INFO'', message) = None"
    by (simp add: entry_response_def)
  then show "ai_response_counter (process_line st raw) = ai_response_counter st"
    using h by (simp add: process_line_classify)
next
  have "map fst (ai_response_counter (process_lines ls)) = first_seen (responses ls)"
    by (simp add: process_lines_tally tally_keys)
  then show "[] \<notin> set (map fst (ai_response_counter (process_lines ls)))"
    by (simp add: first_seen_set responses_nonempty)
qed

theorem empty_span_not_recorded_witness:
  "classify ''[T] INFO - Agent Response: \"\" end'' = Some (''T'', ''INFO'', ''Agent Response: \"\" end'')
   \<and> ai_response_counter (process_line empty_counters ''[T] INFO - Agent Response: \"\" end'') = []"
proof -
  have c: "classify ''[T] INFO - Agent Response: \"\" end''
      = Some (''T'', ''INFO'', ''Agent Response: \"\" end'')"
    by code_simp
  have m: "''Agent Response: \"\" end'' = [] @ ''Agent Response:'' @ '' '' @ [CHR 0x22, CHR 0x22] @ '' end''
      \<and> (\<forall>c\<in>set '' ''. is_space c) \<and> CHR 0x22 \<notin> set ([] :: string) \<and> CHR 0x22 \<notin> set '' end''"
    by (simp add: is_space_def)
  have i: "classify ''[T] INFO - Agent Response: \"\" end''
        = Some (''T'', ''INFO'', ''Agent Response: \"\" end'')
      \<and> ''Agent Response: \"\" end''
          = [] @ ''Agent Response:'' @ '' '' @ [CHR 0x22, CHR 0x22] @ '' end''
      \<and> (\<forall>c\<in>set '' ''. is_space c) \<and> CHR 0x22 \<notin> set ([] :: string)
      \<and> CHR 0x22 \<notin> set '' end''
    \<longrightarrow> ai_response_counter (process_line empty_counters
          ''[T] INFO - Agent Response: \"\" end'') = ai_response_counter empty_counters"
    using empty_span_not_recorded [where raw = "''[T] INFO - Agent Response: \"\" end''"
      and timestamp = "''T''" and message = "''Agent Response: \"\" end''" and pre = "[]"
      and ws = "'' ''" and rest = "'' end''" and st = empty_counters]
    by (rule conjunct1)
  have "ai_response_counter (process_line empty_counters ''[T] INFO - Agent Response: \"\" end'')
      = ai_response_counter empty_counters"
    by (rule mp [OF i]) (rule conjI [OF c m])
  then have "ai_response_counter (process_line empty_counters
      ''[T] INFO - Agent Response: \"\" end'') = []"
    by (simp only: empty_counters_def counters.simps)
  with c show ?thesis by (rule conjI)
qed

section \<open>The ranking of the responses\<close>

lemma tally_elem: "(k, n) \<in> set (tally ks) \<Longrightarrow> k \<in> set ks \<and> n = count_list ks k"
  by (auto simp: tally_eq first_seen_set)

lemma tally_distinct_items: "distinct (tally ks)"
  using tally_distinct [of ks] by (simp add: distinct_map)

lemma enumerate_sorted:
  "sorted_wrt (\<lambda>x y. snd (snd y) \<le> snd (snd x)) (List.enumerate m xs)
     = sorted_wrt (\<lambda>x y. snd y \<le> snd x) xs"
proof -
  have "sorted_wrt (\<lambda>x y. snd y \<le> snd x) (map snd (List.enumerate m xs))
      = sorted_wrt (\<lambda>x y. snd (snd y) \<le> snd (snd x)) (List.enumerate m xs)"
    by (simp only: sorted_wrt_map)
  then show ?thesis by simp
qed

lemma ranked_entries_order:
  assumes before: "a \<in> set (takeWhile (\<lambda>k. k \<noteq> b) ks)"
    and eq: "count_list ks a = count_list ks b"
    and j: "(j, b, n) \<in> set (List.enumerate 1 (take m (most_common (tally ks))))"
  shows "\<exists>i<j. (i, a, n) \<in> set (List.enumerate 1 (take m (most_common (tally ks))))"
proof -
  from j have "(b, n) \<in> set (take m (most_common (tally ks)))"
    unfolding enumerate_eq_zip by (rule set_zip_rightD)
  then have "(b, n) \<in> set (tally ks)"
    using most_common_set [of "tally ks"] by (auto dest: in_set_takeD)
  then have b: "b \<in> set ks" and n: "n = count_list ks b" by (auto dest: tally_elem)
  from ranked_order [OF before b eq] obtain X Y Z where
    S: "most_common (tally ks) = X @ (a, n) # Y @ (b, n) # Z" unfolding n by blast
  have d: "distinct (most_common (tally ks))"
    by (simp add: most_common_distinct tally_distinct_items)
  from enumerate_take_order [OF S d j] show ?thesis .
qed

text \<open>
  Claim C1. For every input text and any two distinct responses \<open>a\<close> and \<open>b\<close> whose
  final counts in the response counter are equal, where the first occurrence of \<open>a\<close>
  comes before the first occurrence of \<open>b\<close> in the input: whenever \<open>b\<close> is listed in
  the AI Responses section, at rank \<open>j\<close>, \<open>a\<close> is listed there too, at a rank below
  \<open>j\<close>. The entries of the section are in descending order of count, and the section is
  the header followed by the formatted entries.
\<close>

theorem response_ranking_stable:
  assumes "a \<in> set (takeWhile (\<lambda>k. k \<noteq> b) (responses (splitlines text)))"
    and "counter_get (ai_response_counter (process_lines (splitlines text))) a 0
         = counter_get (ai_response_counter (process_lines (splitlines text))) b 0"
    and "(j, b, n) \<in> set (response_entries (process_lines (splitlines text)))"
  shows "(\<exists>i<j. (i, a, n) \<in> set (response_entries (process_lines (splitlines text))))
     \<and> sorted_wrt (\<lambda>x y. snd (snd y) \<le> snd (snd x))
          (response_entries (process_lines (splitlines text)))
     \<and> response_lines (process_lines (splitlines text))
         = ''Top 3 AI Responses:''
           # map format_response (response_entries (process_lines (splitlines text)))"
proof (intro conjI)
  let ?ks = "responses (splitlines text)"
  have e: "response_entries (process_lines (splitlines text))
      = List.enumerate 1 (take 3 (most_common (tally ?ks)))"
    by (simp add: response_entries_def most_common_n_def process_lines_tally)
  have eq: "count_list ?ks a = count_list ?ks b"
    using assms(2) by (simp add: process_lines_tally tally_get)
  show "\<exists>i<j. (i, a, n) \<in> set (response_entries (process_lines (splitlines text)))"
    using ranked_entries_order [OF assms(1) eq] assms(3) unfolding e by blast
  show "sorted_wrt (\<lambda>x y. snd (snd y) \<le> snd (snd x))
          (response_entries (process_lines (splitlines text)))"
    unfolding e enumerate_sorted by (rule sorted_wrt_take) (rule most_common_sorted)
  show "response_lines (process_lines (splitlines text))
         = ''Top 3 AI Responses:''
           # map format_response (response_entries (process_lines (splitlines text)))"
    by (simp add: response_lines_def)
qed

theorem response_ranking_stable_witness:
  "(3, ''y'', 1) \<in> set (response_entries (process_lines (splitlines
      ''[T] INFO - Agent Response: \"x\"\<newline>[T] INFO - Agent Response: \"y\"\<newline>[T] INFO - Agent Response: \"z\"\<newline>[T] INFO - Agent Response: \"z\"'')))
   \<and> (\<exists>i<3. (i, ''x'', 1) \<in> set (response_entries (process_lines (splitlines
      ''[T] INFO - Agent Response: \"x\"\<newline>[T] INFO - Agent Response: \"y\"\<newline>[T] INFO - Agent Response: \"z\"\<newline>[T] INFO - Agent Response: \"z\"''))))"
proof -
  let ?t = "''[T] INFO - Agent Response: \"x\"\<newline>[T] INFO - Agent Response: \"y\"\<newline>[T] INFO - Agent Response: \"z\"\<newline>[T] INFO - Agent Response: \"z\"''"
  have r: "responses (splitlines ?t) = [''x'', ''y'', ''z'', ''z'']" by code_simp
  have h1: "''x'' \<in> set (takeWhile (\<lambda>k. k \<noteq> ''y'') (responses (splitlines ?t)))"
    unfolding r by simp
  have c: "ai_response_counter (process_lines (splitlines ?t)) = [(''x'', 1), (''y'', 1), (''z'', 2)]"
    by code_simp
  have h2: "counter_get (ai_response_counter (process_lines (splitlines ?t))) ''x'' 0
         = counter_get (ai_response_counter (process_lines (splitlines ?t))) ''y'' 0"
    unfolding c by (simp add: counter_get_def)
  have e: "response_entries (process_lines (splitlines ?t))
      = [(1, ''z'', 2), (2, ''x'', 1), (3, ''y'', 1)]"
    by code_simp
  have h3: "(3, ''y'', 1) \<in> set (response_entries (process_lines (splitlines ?t)))"
    unfolding e by simp
  from response_ranking_stable [OF h1 h2 h3]
  have "\<exists>i<3. (i, ''x'', 1) \<in> set (response_entries (process_lines (splitlines ?t)))"
    by (rule conjunct1)
  with h3 show ?thesis by (rule conjI)
qed

section \<open>The section of the errors\<close>





section \<open>The option for the number of responses\<close>

text \<open>
  Claim C3. For every configured value \<open>N\<close> of the option \<^verbatim>\<open>top_responses\<close>, the
  responses section is headed \<^verbatim>\<open>Top N AI Responses:\<close> and lists at most \<open>N\<close> ranked
  entries. The docstring of \<^verbatim>\<open>analyze_logs\<close> documents the option as the number of top
  responses to include, and \<^verbatim>\<open>test_custom_top_n\<close> passes 4 and expects four responses
  in the report. The code does not apply the option: \<^verbatim>\<open>analyze_logs\<close> returns the text
  of the file whatever the option is (line 18, under a TODO), and
  \<^verbatim>\<open>parse_agent_logs\<close> prints \<^verbatim>\<open>Top 3 AI Responses:\<close> and the first three entries
  (lines 61 and 62). The evaluation is at the option value 4, on a log with the four
  distinct responses a, b, c and d: the header names 3 and the response d is not listed.
\<close>

theorem top_responses_not_applied:
  "analyze_logs
     [''sample.log'' \<mapsto> ''[T] INFO - Agent Response: \"a\"\<newline>[T] INFO - Agent Response: \"b\"\<newline>[T] INFO - Agent Response: \"c\"\<newline>[T] INFO - Agent Response: \"d\"'']
     ''sample.log'' 4 3
     = Inr ''[T] INFO - Agent Response: \"a\"\<newline>[T] INFO - Agent Response: \"b\"\<newline>[T] INFO - Agent Response: \"c\"\<newline>[T] INFO - Agent Response: \"d\"''
   \<and> response_lines (process_lines (splitlines
        ''[T] INFO - Agent Response: \"a\"\<newline>[T] INFO - Agent Response: \"b\"\<newline>[T] INFO - Agent Response: \"c\"\<newline>[T] INFO - Agent Response: \"d\"''))
     = [''Top 3 AI Responses:'', ''1. \"a\" (1 times)'', ''2. \"b\" (1 times)'',
        ''3. \"c\" (1 times)'']"
proof
  show "analyze_logs
     [''sample.log'' \<mapsto> ''[T] INFO - Agent Response: \"a\"\<newline>[T] INFO - Agent Response: \"b\"\<newline>[T] INFO - Agent Response: \"c\"\<newline>[T] INFO - Agent Response: \"d\"'']
     ''sample.log'' 4 3
     = Inr ''[T] INFO - Agent Response: \"a\"\<newline>[T] INFO - Agent Response: \"b\"\<newline>[T] INFO - Agent Response: \"c\"\<newline>[T] INFO - Agent Response: \"d\"''"
    by (simp add: analyze_logs_def read_file_def)
  show "response_lines (process_lines (splitlines
        ''[T] INFO - Agent Response: \"a\"\<newline>[T] INFO - Agent Response: \"b\"\<newline>[T] INFO - Agent Response: \"c\"\<newline>[T] INFO - Agent Response: \"d\"''))
     = [''Top 3 AI Responses:'', ''1. \"a\" (1 times)'', ''2. \"b\" (1 times)'',
        ''3. \"c\" (1 times)'']"
    by code_simp
qed

section \<open>Two runs over the same text\<close>

text \<open>
  Claim C9. For every input text, two runs of \<^verbatim>\<open>parse_agent_logs\<close> over the same text
  return identical report strings. The three counters are created inside the call (lines
  30 to 32) and nothing else is read, so the report is a function of the text alone.
\<close>

theorem report_deterministic:
  "text1 = text2 \<Longrightarrow> parse_agent_logs text1 = parse_agent_logs text2"
  by (rule arg_cong)

theorem report_deterministic_witness:
  "parse_agent_logs ''[T] INFO - x'' = parse_agent_logs ''[T] INFO - x''"
  by (rule report_deterministic) (rule refl)

end
